theory Spec2Isabelle
  imports Main
begin

section \<open>Data model of the B-tree (lib.h as used by insert.c)\<close>

text \<open>
  An entry is a key with an opaque payload. A node owns two C arrays, \<open>entry\<close> and
  \<open>children\<close>, and a counter \<open>len\<close>. An array slot holds a pointer, \<open>None\<close> being
  \<open>NULL\<close>. A C array is a list whose length is the number of slots that were
  allocated for it; an access outside of it is an error of the model, and so is the
  comparison with the key of an entry that is \<open>NULL\<close>. The tree \<open>*bt\<close> is a value, so
  that \<open>assert(bt != NULL)\<close> holds, and an allocation always succeeds, so that the
  assertions on its result hold.
\<close>

datatype cbt_entry = Entry (key: int) (object: nat)

datatype cbt_node =
  Node (entry: "cbt_entry option list") (children: "cbt_node option list") (len: int)

record cranbtree =
  bt_root :: "cbt_node option"
  bt_n :: int
  bt_max_key :: int
  bt_min_key :: int

datatype error = OutOfBounds | NullDeref

definition rd :: "'a list \<Rightarrow> int \<Rightarrow> error + 'a" where
  \<comment> \<open>the read \<open>a[i]\<close> of a C array with \<open>length a\<close> slots\<close>
  "rd a i = (if 0 \<le> i \<and> i < int (length a) then Inr (a ! nat i) else Inl OutOfBounds)"

definition wr :: "'a list \<Rightarrow> int \<Rightarrow> 'a \<Rightarrow> error + 'a list" where
  \<comment> \<open>the write \<open>a[i] = v\<close>\<close>
  "wr a i v = (if 0 \<le> i \<and> i < int (length a) then Inr (a[nat i := v]) else Inl OutOfBounds)"

section \<open>Node primitives\<close>

definition bt_create_node :: "int \<Rightarrow> cbt_node" where
  \<comment> \<open>Modelled from the spec: \<open>bt_create_node\<close> is declared in lib.h and defined outside
      insert.c. The spec: "returns a node with capacity for n-1 entries and n children,
      all empty", with \<open>count = 0\<close>.\<close>
  "bt_create_node n = Node (replicate (nat (n - 1)) None) (replicate (nat n) None) 0"

definition is_full_node :: "cbt_node \<Rightarrow> int \<Rightarrow> bool" where
  \<comment> \<open>Modelled from the spec: \<open>is_full_node\<close> is defined outside insert.c. The spec:
      "true iff count == n-1".\<close>
  "is_full_node node n = (len node = n - 1)"

definition ceil_fn :: "int \<Rightarrow> int" where
  \<comment> \<open>Modelled from the spec: \<open>ceil_fn\<close> is defined outside insert.c; the call site is
      \<open>ceil_fn(((double)n) / 2.0)\<close> and the spec has \<open>borrow = ceil(n / 2)\<close>. The
      argument here is \<open>n\<close>, the result the ceiling of its half.\<close>
  "ceil_fn n = (n + 1) div 2"

text \<open>
  The position of a key among the counted entries of a node: the first index whose entry
  has a larger key, or the number of counted entries when there is none. A counted slot
  that holds \<open>NULL\<close> cannot be compared with.
\<close>

fun key_pos :: "cbt_entry option list \<Rightarrow> int \<Rightarrow> error + nat" where
  "key_pos [] k = Inr 0"
| "key_pos (None # es) k = Inl NullDeref"
| "key_pos (Some e # es) k =
     (if k < key e then Inr 0
      else (case key_pos es k of Inl err \<Rightarrow> Inl err | Inr i \<Rightarrow> Inr (Suc i)))"

definition counted :: "cbt_node \<Rightarrow> error + cbt_entry option list" where
  \<comment> \<open>the slots \<open>entry[0 .. len - 1]\<close>\<close>
  "counted node =
     (if 0 \<le> len node \<and> len node \<le> int (length (entry node))
      then Inr (take (nat (len node)) (entry node)) else Inl OutOfBounds)"

definition get_next_node_index :: "cbt_node \<Rightarrow> int \<Rightarrow> int \<Rightarrow> error + int" where
  \<comment> \<open>Modelled from the spec: \<open>get_next_node_index\<close> is defined outside insert.c. The
      spec: "returns the index i such that key belongs before entries[i] (or the last valid
      index if key is greater than all entries)"; the last valid child index of a node with
      \<open>len\<close> entries is \<open>len\<close>.\<close>
  "get_next_node_index node k n =
     (case counted node of Inl err \<Rightarrow> Inl err | Inr es \<Rightarrow>
     (case key_pos es k of Inl err \<Rightarrow> Inl err | Inr i \<Rightarrow> Inr (int i)))"

definition node_insert_entry ::
  "cbt_node \<Rightarrow> cbt_entry \<Rightarrow> bool \<Rightarrow> int \<Rightarrow> error + (cbt_node \<times> int)" where
  \<comment> \<open>Modelled from the spec: \<open>node_insert_entry\<close> is defined outside insert.c. The spec:
      "inserts entry into the node's entry sequence at the correct sorted position, shifting
      subsequent entries and (when true) their associated child-slot down by one";
      "shifts the child-slot array so slot i+1 stays paired with the entry that was at slot
      i before insertion"; "returns the index at which the entry landed"; "undefined if node
      is already full". The entries from the landing index \<open>i\<close> on move one slot up, the
      child slots from \<open>i + 1\<close> on move one slot up, the child slot \<open>i + 1\<close> is left
      empty, and a shift that leaves an array is an error.\<close>
  "node_insert_entry node e shift n =
     (case counted node of Inl err \<Rightarrow> Inl err | Inr es \<Rightarrow>
     (case key_pos es (key e) of Inl err \<Rightarrow> Inl err | Inr i \<Rightarrow>
        let l = nat (len node) in
        if length (entry node) \<le> l \<or> (shift \<and> length (children node) \<le> Suc l)
        then Inl OutOfBounds
        else Inr (Node (take i (entry node) @ Some e # take (l - i) (drop i (entry node))
                          @ drop (Suc l) (entry node))
                       (if shift
                        then take (Suc i) (children node) @ None
                               # take (l - i) (drop (Suc i) (children node))
                               @ drop (Suc (Suc l)) (children node)
                        else children node)
                       (len node + 1),
                  int i)))"

definition is_leaf :: "cbt_node option \<Rightarrow> bool" where
  \<comment> \<open>Modelled from the spec: \<open>is_leaf\<close> is defined outside insert.c. The spec:
      "true iff the reference is absent".\<close>
  "is_leaf c = (c = None)"

section \<open>bt\_split\_child\<close>

text \<open>
  The copy loop of \<open>bt_split_child\<close>, \<open>for (int i = borrow_n; i < n; i++)\<close>, with the
  loop variables \<open>i\<close> and \<open>new_node_itr\<close> and the two nodes it mutates.
\<close>

function split_loop ::
  "int \<Rightarrow> int \<Rightarrow> int \<Rightarrow> cbt_node \<Rightarrow> cbt_node \<Rightarrow> error + (cbt_node \<times> cbt_node)" where
  "split_loop n i new_node_itr node new_node =
     (if i < n then
        (case rd (entry node) i of Inl e \<Rightarrow> Inl e | Inr x \<Rightarrow>
        (case wr (entry new_node) new_node_itr x of Inl e \<Rightarrow> Inl e | Inr ne \<Rightarrow>
        (case rd (children node) (i + 1) of Inl e \<Rightarrow> Inl e | Inr c \<Rightarrow>
        (case wr (children new_node) (new_node_itr + 1) c of Inl e \<Rightarrow> Inl e | Inr nc \<Rightarrow>
        (case wr (entry node) i None of Inl e \<Rightarrow> Inl e | Inr oe \<Rightarrow>
        (case wr (children node) (i + 1) None of Inl e \<Rightarrow> Inl e | Inr oc \<Rightarrow>
           split_loop n (i + 1) (new_node_itr + 1)
             (Node oe oc (len node)) (Node ne nc (len new_node))))))))
      else Inr (node, new_node))"
  by pat_completeness auto
termination
  by (relation "measure (\<lambda>(n, i, itr, node, new_node). nat (n - i))") auto

declare split_loop.simps [simp del]

text \<open>
  \<open>bt_split_child\<close> returns the median entry (\<open>NULL\<close> when the node is not full) and
  writes the new node through \<open>splitted_node\<close>; the node itself is mutated in place.
  The model returns the three: the entry returned, the node afterwards, and
  \<open>*splitted_node\<close> afterwards (\<open>None\<close> when it was not written; both callers
  initialise it to \<open>NULL\<close>). The division \<open>n / 2\<close> of C is \<open>n div 2\<close>: the two
  assignments of it are reached with \<open>n > 0\<close> only (\<open>bt_split_child_order\<close> below).
\<close>

definition bt_split_child ::
  "cbt_node \<Rightarrow> int \<Rightarrow> error + (cbt_entry option \<times> cbt_node \<times> cbt_node option)" where
  "bt_split_child node n =
     (if \<not> is_full_node node n then Inr (None, node, None)
      else
        let new_node = bt_create_node n;
            borrow_n = ceil_fn n in
        (case rd (children node) borrow_n of Inl e \<Rightarrow> Inl e | Inr c0 \<Rightarrow>
        (case wr (children new_node) 0 c0 of Inl e \<Rightarrow> Inl e | Inr nc \<Rightarrow>
        (case wr (children node) borrow_n None of Inl e \<Rightarrow> Inl e | Inr oc \<Rightarrow>
        (case split_loop n borrow_n 0 (Node (entry node) oc (len node))
                (Node (entry new_node) nc (len new_node)) of
           Inl e \<Rightarrow> Inl e
         | Inr (node1, new_node1) \<Rightarrow>
            let new_node2 = Node (entry new_node1) (children new_node1) (n div 2);
                node2 = Node (entry node1) (children node1) (n div 2) in
            (case rd (entry node2) (borrow_n - 1) of Inl e \<Rightarrow> Inl e | Inr en \<Rightarrow>
            (case wr (entry node2) (borrow_n - 1) None of Inl e \<Rightarrow> Inl e | Inr oe \<Rightarrow>
               Inr (en, Node oe (children node2) (len node2), Some new_node2))))))))"

section \<open>split\_full\_root\<close>

text \<open>
  \<open>split_full_root\<close> returns a pointer: to the node it created, or \<open>old_root\<close>
  itself. The model returns the node that pointer refers to after the call, and whether
  it is another pointer than \<open>old_root\<close> (the caller's test \<open>bt->root != root\<close>).
  \<open>old_root\<close> is mutated by the split; the new root refers to it as its child 0.
\<close>

definition split_full_root :: "cbt_node \<Rightarrow> int \<Rightarrow> error + (cbt_node \<times> bool)" where
  "split_full_root old_root n =
     (case bt_split_child old_root n of Inl err \<Rightarrow> Inl err
      | Inr (root_entry, old_root1, splitted_node) \<Rightarrow>
     (case root_entry of
        Some re \<Rightarrow>
          let new_root = bt_create_node n in
          (case node_insert_entry new_root re True n of Inl err \<Rightarrow> Inl err
           | Inr (new_root1, _) \<Rightarrow>
          (case wr (children new_root1) 0 (Some old_root1) of Inl err \<Rightarrow> Inl err
           | Inr c0 \<Rightarrow>
          (case wr c0 1 splitted_node of Inl err \<Rightarrow> Inl err
           | Inr c1 \<Rightarrow> Inr (Node (entry new_root1) c1 (len new_root1), True))))
      | None \<Rightarrow> Inr (old_root1, False)))"

section \<open>bt\_insert\_helper\<close>

text \<open>
  A pointer to a node of the tree is the path of child indices that leads to it from
  \<open>bt->root\<close>; nodes are owned by their parent and never shared. \<open>deref\<close> follows a
  path (\<open>None\<close> is the \<open>NULL\<close> pointer), \<open>store\<close> replaces the node a path leads to.
\<close>

fun deref :: "cbt_node option \<Rightarrow> nat list \<Rightarrow> cbt_node option" where
  "deref t [] = t"
| "deref None (i # p) = None"
| "deref (Some nd) (i # p) =
     (if i < length (children nd) then deref (children nd ! i) p else None)"

fun store :: "cbt_node option \<Rightarrow> nat list \<Rightarrow> cbt_node option \<Rightarrow> cbt_node option" where
  "store t [] x = x"
| "store None (i # p) x = None"
| "store (Some nd) (i # p) x =
     Some (Node (entry nd) ((children nd)[i := store (children nd ! i) p x]) (len nd))"

definition is_root :: "nat list \<Rightarrow> bool" where
  \<comment> \<open>Modelled from the spec: \<open>is_root\<close> is defined outside insert.c. The spec: "node is
      the tree's root"; on pointers, \<open>bt->root == root\<close>.\<close>
  "is_root p = (p = [])"

text \<open>
  The branch of \<open>bt_insert_helper\<close> that prepares the descent into a child that is not
  \<open>NULL\<close> (the \<open>else\<close> branch, up to the recursive call): it splits the child if it is
  full, inserts the median into \<open>root\<close>, stores the new node and recalculates
  \<open>child_index\<close>. It returns \<open>root\<close> afterwards and the \<open>child_index\<close> of the call.
\<close>

definition split_step ::
  "cbt_node \<Rightarrow> int \<Rightarrow> cbt_node \<Rightarrow> cbt_entry \<Rightarrow> int \<Rightarrow> error + (cbt_node \<times> int)" where
  "split_step root child_index child e n =
     (case bt_split_child child n of Inl err \<Rightarrow> Inl err
      | Inr (median_entry, child1, splitted_node) \<Rightarrow>
     (case wr (children root) child_index (Some child1) of Inl err \<Rightarrow> Inl err
      | Inr cs1 \<Rightarrow>
        let root1 = Node (entry root) cs1 (len root) in
        (case median_entry of
           None \<Rightarrow> Inr (root1, child_index)
         | Some m \<Rightarrow>
            (case node_insert_entry root1 m True n of Inl err \<Rightarrow> Inl err
             | Inr (root2, splitted_node_ptr_index) \<Rightarrow>
            (case wr (children root2) splitted_node_ptr_index splitted_node of
               Inl err \<Rightarrow> Inl err
             | Inr cs3 \<Rightarrow>
                let root3 = Node (entry root2) cs3 (len root2) in
                (case get_next_node_index root3 (key e) n of Inl err \<Rightarrow> Inl err
                 | Inr child_index' \<Rightarrow> Inr (root3, child_index')))))))"

text \<open>
  \<open>bt_insert_helper\<close> calls itself, for the restart after the root was split and for
  the descent. The first argument bounds the depth of these calls: with none left the
  result is \<open>None\<close>, otherwise it is what the C function leaves in \<open>*bt\<close>, or the
  error that aborted it.
\<close>

fun bt_insert_helper ::
  "nat \<Rightarrow> cranbtree \<Rightarrow> nat list \<Rightarrow> cbt_entry \<Rightarrow> (error + cranbtree) option" where
  "bt_insert_helper 0 bt p e = None"
| "bt_insert_helper (Suc fuel) bt p e =
     (case deref (bt_root bt) p of
        None \<Rightarrow>
          (case node_insert_entry (bt_create_node (bt_n bt)) e True (bt_n bt) of
             Inl err \<Rightarrow> Some (Inl err)
           | Inr (root, _) \<Rightarrow>
               Some (Inr (bt\<lparr>bt_root := Some root, bt_max_key := key e, bt_min_key := key e\<rparr>)))
      | Some root0 \<Rightarrow>
          (case (if is_root p then split_full_root root0 (bt_n bt) else Inr (root0, False)) of
             Inl err \<Rightarrow> Some (Inl err)
           | Inr (root, changed) \<Rightarrow>
               if changed then bt_insert_helper fuel (bt\<lparr>bt_root := Some root\<rparr>) [] e
               else
                 (case get_next_node_index root (key e) (bt_n bt) of
                    Inl err \<Rightarrow> Some (Inl err)
                  | Inr child_index \<Rightarrow>
                 (case rd (children root) child_index of Inl err \<Rightarrow> Some (Inl err)
                  | Inr c \<Rightarrow>
                 if is_leaf c then
                   (case node_insert_entry root e True (bt_n bt) of
                      Inl err \<Rightarrow> Some (Inl err)
                    | Inr (root1, _) \<Rightarrow>
                        Some (Inr (bt\<lparr>bt_root := store (bt_root bt) p (Some root1)\<rparr>)))
                 else
                   (case c of
                      None \<Rightarrow> Some (Inl NullDeref)
                    | Some child \<Rightarrow>
                        (case split_step root child_index child e (bt_n bt) of
                           Inl err \<Rightarrow> Some (Inl err)
                         | Inr (root3, child_index') \<Rightarrow>
                        (case rd (children root3) child_index' of Inl err \<Rightarrow> Some (Inl err)
                         | Inr _ \<Rightarrow>
                             bt_insert_helper fuel
                               (bt\<lparr>bt_root := store (bt_root bt) p (Some root3)\<rparr>)
                               (p @ [nat child_index']) e)))))))"

fun insert_all :: "nat \<Rightarrow> cranbtree \<Rightarrow> cbt_entry list \<Rightarrow> (error + cranbtree) option" where
  \<comment> \<open>Modelled from the spec: the caller of \<open>bt_insert_helper\<close> is outside insert.c. The
      spec: "Tree.insert(entry) -> InsertionEngine", and the insertion starts at the root:
      it is the call \<open>bt_insert_helper(bt, bt->root, entry)\<close>, as the restart makes it.
      \<open>insert_all\<close> inserts a sequence of entries, one call after the other, and stops
      at the first call that does not return a tree.\<close>
  "insert_all fuel bt [] = Some (Inr bt)"
| "insert_all fuel bt (e # es) =
     (case bt_insert_helper fuel bt [] e of
        Some (Inr bt') \<Rightarrow> insert_all fuel bt' es
      | r \<Rightarrow> r)"

definition empty_tree :: "int \<Rightarrow> int \<Rightarrow> int \<Rightarrow> cranbtree" where
  \<comment> \<open>a tree without root; the two keys are what the fields hold before the first
      insertion\<close>
  "empty_tree n mx mn = \<lparr>bt_root = None, bt_n = n, bt_max_key = mx, bt_min_key = mn\<rparr>"

section \<open>Notions of the specification\<close>

fun height :: "cbt_node \<Rightarrow> nat" where
  "height (Node es cs l) =
     Suc (fold max (map (\<lambda>c. case c of None \<Rightarrow> 0 | Some nd \<Rightarrow> height nd) cs) 0)"

definition tree_height :: "cbt_node option \<Rightarrow> nat" where
  "tree_height t = (case t of None \<Rightarrow> 0 | Some nd \<Rightarrow> height nd)"

fun populated :: "'a option list \<Rightarrow> 'a list" where
  "populated [] = []"
| "populated (None # xs) = populated xs"
| "populated (Some x # xs) = x # populated xs"

definition node_entries :: "cbt_node \<Rightarrow> cbt_entry list" where
  \<comment> \<open>the entries a node holds: the pointers in its counted slots that are not \<open>NULL\<close>\<close>
  "node_entries nd = populated (take (nat (len nd)) (entry nd))"

text \<open>
  The split as the specification words it, on the arrays: with \<open>borrow = ceil(n / 2)\<close>,
  the promoted entry is the one at index \<open>borrow - 1\<close>; the right half is a new node
  that takes the entries at \<open>[borrow, n-2]\<close> and the children at \<open>[borrow, n-1]\<close>, in
  order and from its slot 0 on; all of these are removed from the node; both counts are
  \<open>floor(n / 2)\<close>.
\<close>

definition clear_slots :: "nat \<Rightarrow> nat \<Rightarrow> 'a option list \<Rightarrow> 'a option list" where
  \<comment> \<open>the slots \<open>i, ..., j - 1\<close> emptied\<close>
  "clear_slots i j xs = take i xs @ replicate (j - i) None @ drop j xs"

definition slots :: "nat \<Rightarrow> nat \<Rightarrow> 'a list \<Rightarrow> 'a list" where
  \<comment> \<open>the slots \<open>i, ..., j - 1\<close>\<close>
  "slots i j xs = take (j - i) (drop i xs)"

definition spec_split :: "cbt_node \<Rightarrow> int \<Rightarrow> cbt_entry option \<times> cbt_node \<times> cbt_node" where
  "spec_split node n =
     (let borrow = nat ((n + 1) div 2); m = nat n;
          right_es = slots borrow (m - 1) (entry node);
          right_cs = slots borrow m (children node)
      in (entry node ! (borrow - 1),
          Node (clear_slots (borrow - 1) (m - 1) (entry node))
               (clear_slots borrow m (children node)) (n div 2),
          Node (right_es @ replicate (m - 1 - length right_es) None)
               (right_cs @ replicate (m - length right_cs) None) (n div 2)))"

text \<open>
  The invariants of the specification. \<open>subtree_keys\<close> are the keys reachable from a
  child slot; \<open>node_ok\<close> is what the specification asks of one node of a tree of order
  \<open>n\<close>: the count within \<open>[0, n-1]\<close>, the counted slots populated with strictly
  ascending keys, exactly \<open>count + 1\<close> children in a node that has any, and the order
  of the keys below the children around each entry.
\<close>

fun node_keys :: "cbt_node \<Rightarrow> int list" where
  "node_keys (Node es cs l) =
     map key (populated (take (nat l) es))
     @ concat (map (\<lambda>c. case c of None \<Rightarrow> [] | Some nd \<Rightarrow> node_keys nd) cs)"

definition subtree_keys :: "cbt_node option \<Rightarrow> int list" where
  "subtree_keys t = (case t of None \<Rightarrow> [] | Some nd \<Rightarrow> node_keys nd)"

definition node_ok :: "int \<Rightarrow> cbt_node \<Rightarrow> bool" where
  "node_ok n nd =
     (0 \<le> len nd \<and> len nd \<le> n - 1
      \<and> len nd \<le> int (length (entry nd))
      \<and> list_all (\<lambda>x. x \<noteq> None) (take (nat (len nd)) (entry nd))
      \<and> sorted_wrt (<) (map key (node_entries nd))
      \<and> (list_ex (\<lambda>c. c \<noteq> None) (children nd)
           \<longrightarrow> int (length (filter (\<lambda>c. c \<noteq> None) (children nd))) = len nd + 1)
      \<and> list_all (\<lambda>i. Suc i < length (children nd)
              \<and> list_all (\<lambda>k. k < key (node_entries nd ! i)) (subtree_keys (children nd ! i))
              \<and> list_all (\<lambda>k. key (node_entries nd ! i) \<le> k)
                    (subtree_keys (children nd ! Suc i)))
           [0 ..< nat (len nd)])"

fun tree_ok :: "int \<Rightarrow> cbt_node \<Rightarrow> bool" where
  "tree_ok n (Node es cs l) =
     (node_ok n (Node es cs l)
      \<and> list_all (\<lambda>c. case c of None \<Rightarrow> True | Some nd \<Rightarrow> tree_ok n nd) cs)"

text \<open>
  Nodes to run the functions on: a node without children that holds the given keys in
  arrays of the given numbers of slots.
\<close>

definition leaf_of :: "nat \<Rightarrow> nat \<Rightarrow> int list \<Rightarrow> cbt_node" where
  "leaf_of entry_slots child_slots ks =
     Node (map (\<lambda>k. Some (Entry k 0)) ks @ replicate (entry_slots - length ks) None)
          (replicate child_slots None) (int (length ks))"

text \<open>
  A tree that is a single node without children, as \<open>bt_create_node\<close> allocates it,
  holding the entries \<open>xs\<close> in its first slots; and the insertion of an entry into a
  list of entries before the first entry with a larger key.
\<close>

definition leaf_shape :: "int \<Rightarrow> cranbtree \<Rightarrow> cbt_entry list \<Rightarrow> bool" where
  "leaf_shape n bt xs =
     (bt_n bt = n \<and> length xs \<le> nat (n - 1)
      \<and> bt_root bt = Some (Node (map Some xs @ replicate (nat (n - 1) - length xs) None)
                               (replicate (nat n) None) (int (length xs))))"

fun ins_entry :: "cbt_entry \<Rightarrow> cbt_entry list \<Rightarrow> cbt_entry list" where
  "ins_entry e [] = [e]"
| "ins_entry e (x # xs) = (if key e < key x then e # x # xs else x # ins_entry e xs)"




section \<open>Array accesses\<close>

declare is_leaf_def [simp]

lemma rd_nat [simp]: "rd a (int i) = (if i < length a then Inr (a ! i) else Inl OutOfBounds)"
  by (simp add: rd_def)
lemma wr_nat [simp]: "wr a (int i) v = (if i < length a then Inr (a[i := v]) else Inl OutOfBounds)"
  by (simp add: wr_def)

lemma split_loop_nat:
  "i \<le> n \<Longrightarrow> n \<le> length es \<Longrightarrow> Suc n \<le> length cs \<Longrightarrow>
   k + (n - i) \<le> length nes \<Longrightarrow> Suc (k + (n - i)) \<le> length ncs \<Longrightarrow>
   split_loop (int n) (int i) (int k) (Node es cs l) (Node nes ncs nl) =
     Inr (Node (take i es @ replicate (n - i) None @ drop n es)
               (take (Suc i) cs @ replicate (n - i) None @ drop (Suc n) cs) l,
          Node (take k nes @ take (n - i) (drop i es) @ drop (k + (n - i)) nes)
               (take (Suc k) ncs @ take (n - i) (drop (Suc i) cs) @ drop (Suc (k + (n - i))) ncs) nl)"
proof (induction "n - i" arbitrary: i k es cs nes ncs)
  case 0
  then show ?case by (simp add: split_loop.simps)
next
  case (Suc d)
  then have lt: "i < n" by simp
  have d: "d = n - Suc i" using Suc by simp
  have e1: "int i + 1 = int (Suc i)" "int k + 1 = int (Suc k)" by simp_all
  have IH: "split_loop (int n) (int (Suc i)) (int (Suc k)) (Node (es[i := None]) (cs[Suc i := None]) l)
      (Node (nes[k := es ! i]) (ncs[Suc k := cs ! Suc i]) nl) = 
     Inr (Node (take (Suc i) (es[i := None]) @ replicate (n - Suc i) None @ drop n (es[i := None]))
               (take (Suc (Suc i)) (cs[Suc i := None]) @ replicate (n - Suc i) None @ drop (Suc n) (cs[Suc i := None])) l,
          Node (take (Suc k) (nes[k := es ! i]) @ take (n - Suc i) (drop (Suc i) (es[i := None])) @ drop (Suc k + (n - Suc i)) (nes[k := es ! i]))
               (take (Suc (Suc k)) (ncs[Suc k := cs ! Suc i]) @ take (n - Suc i) (drop (Suc (Suc i)) (cs[Suc i := None])) @ drop (Suc (Suc k + (n - Suc i))) (ncs[Suc k := cs ! Suc i])) nl)"
    using Suc.prems lt by (intro Suc.hyps(1)[OF d]) auto
  have a1: "take (Suc i) (es[i := None]) @ replicate (n - Suc i) None @ drop n (es[i := None])
      = take i es @ replicate (n - i) None @ drop n es"
    using lt Suc.prems
    by (simp add: take_Suc_conv_app_nth Suc_diff_Suc replicate_Suc[symmetric] del: replicate_Suc)
  have ni: "n - i = Suc (n - Suc i)" using lt by simp
  have a2: "take (Suc (Suc i)) (cs[Suc i := None]) @ replicate (n - Suc i) None @ drop (Suc n) (cs[Suc i := None])
      = take (Suc i) cs @ replicate (n - i) None @ drop (Suc n) cs"
    using lt Suc.prems
    by (simp add: take_Suc_conv_app_nth Suc_diff_Suc replicate_Suc[symmetric] del: replicate_Suc)
  have a3: "take (Suc k) (nes[k := es ! i]) @ take (n - Suc i) (drop (Suc i) (es[i := None])) @ drop (Suc k + (n - Suc i)) (nes[k := es ! i])
     = take k nes @ take (n - i) (drop i es) @ drop (k + (n - i)) nes"
    using lt Suc.prems
    by (simp add: take_Suc_conv_app_nth ni Cons_nth_drop_Suc[symmetric])
  have a4: "take (Suc (Suc k)) (ncs[Suc k := cs ! Suc i]) @ take (n - Suc i) (drop (Suc (Suc i)) (cs[Suc i := None])) @ drop (Suc (Suc k + (n - Suc i))) (ncs[Suc k := cs ! Suc i])
     = take (Suc k) ncs @ take (n - i) (drop (Suc i) cs) @ drop (Suc (k + (n - i))) ncs"
    using lt Suc.prems
    by (simp add: take_Suc_conv_app_nth ni Cons_nth_drop_Suc[symmetric])
  note IH' = IH[unfolded a1 a2 a3 a4]
  have b: "k < length nes" "Suc k < length ncs" "i < length es" "Suc i < length cs"
    using lt Suc.prems by auto
  show ?case
    by (subst split_loop.simps) (simp add: e1 IH' b lt del: of_nat_Suc)
qed

lemma ceil_fn_nat: "ceil_fn (int N) = int (Suc N div 2)"
  by (simp add: ceil_fn_def zdiv_int)

lemma bt_split_child_full:
  assumes full: "is_full_node node (int N)" and N: "1 \<le> N"
    and ce: "N \<le> length (entry node)" and cc: "Suc N \<le> length (children node)"
  shows "bt_split_child node (int N) =
     Inr (entry node ! (Suc N div 2 - 1),
          Node (take (Suc N div 2 - 1) (entry node) @ replicate (Suc (N - Suc N div 2)) None @ drop N (entry node))
               (take (Suc N div 2) (children node) @ replicate (Suc (N - Suc N div 2)) None @ drop (Suc N) (children node))
               (int N div 2),
          Some (Node (take (N - Suc N div 2) (drop (Suc N div 2) (entry node)) @ replicate (Suc N div 2 - 1) None)
                     (take (Suc (N - Suc N div 2)) (drop (Suc N div 2) (children node)) @ replicate (Suc N div 2 - 1) None)
                     (int N div 2)))"
proof -
  define B where "B = Suc N div 2"
  obtain es cs l where node: "node = Node es cs l" by (cases node)
  have B: "1 \<le> B" "B \<le> N" using N by (auto simp: B_def)
  have Bm: "int B - 1 = int (B - 1)" using B by simp
  have loop: "split_loop (int N) (int B) (int 0) (Node es (cs[B := None]) l)
           (Node (replicate (N - 1) None) ((replicate N None)[0 := cs ! B]) 0) = 
     Inr (Node (take B es @ replicate (N - B) None @ drop N es)
               (take (Suc B) (cs[B := None]) @ replicate (N - B) None @ drop (Suc N) (cs[B := None])) l,
          Node (take 0 (replicate (N - 1) None) @ take (N - B) (drop B es) @ drop (0 + (N - B)) (replicate (N - 1) None))
               (take (Suc 0) ((replicate N None)[0 := cs ! B]) @ take (N - B) (drop (Suc B) (cs[B := None])) @ drop (Suc (0 + (N - B))) ((replicate N None)[0 := cs ! B])) 0)"
    using B ce cc unfolding node by (intro split_loop_nat) auto
  have c1: "take (Suc B) (cs[B := None]) @ replicate (N - B) None @ drop (Suc N) (cs[B := None])
      = take B cs @ replicate (Suc (N - B)) None @ drop (Suc N) cs"
    using B cc unfolding node by (simp add: take_Suc_conv_app_nth replicate_Suc[symmetric] del: replicate_Suc)
  have c2: "(take B es @ replicate (N - B) None @ drop N es)[B - 1 := None]
      = take (B - 1) es @ replicate (Suc (N - B)) None @ drop N es"
  proof -
    obtain B' where B': "B = Suc B'" using B by (cases B) auto
    have "B' < length es" using B B' ce unfolding node by simp
    then have "(take (Suc B') es)[B' := None] = take B' es @ [None]"
      by (simp add: take_Suc_conv_app_nth list_update_append)
    then show ?thesis using B ce unfolding node B'
      by (simp add: list_update_append)
  qed
  have c3: "take 0 (replicate (N - 1) None) @ take (N - B) (drop B es) @ drop (0 + (N - B)) (replicate (N - 1) None)
      = take (N - B) (drop B es) @ replicate (B - 1) (None :: cbt_entry option)"
    using B by simp
  have c4: "take (Suc 0) ((replicate N None)[0 := cs ! B]) @ take (N - B) (drop (Suc B) (cs[B := None])) @ drop (Suc (0 + (N - B))) ((replicate N None)[0 := cs ! B])
      = take (Suc (N - B)) (drop B cs) @ replicate (B - 1) None"
    using B cc unfolding node
    by (simp add: take_Suc_conv_app_nth Cons_nth_drop_Suc[symmetric] drop_update_cancel)
  note loop' = loop[unfolded c1 c3 c4]
  have r: "B - 1 < length es" "B < length cs" using B ce cc unfolding node by auto
  have s0: "is_full_node (Node es cs l) (int N)" using full node by simp
  have l: "l = int N - 1" using s0 by (simp add: is_full_node_def)
  have s1: "rd cs (int B) = Inr (cs ! B)" by (simp add: r)
  have s2: "wr (replicate N None) 0 (cs ! B) = Inr ((replicate N None)[0 := cs ! B])"
    using N by (simp add: wr_def)
  have s3: "wr cs (int B) None = Inr (cs[B := None])" by (simp add: r)
  let ?oe = "take B es @ replicate (N - B) None @ drop N es"
  have len_oe: "B - 1 < length ?oe" using B ce unfolding node by simp
  have nth_oe: "?oe ! (B - 1) = es ! (B - 1)" using B ce unfolding node by (simp add: nth_append)
  have s4: "rd ?oe (int B - 1) = Inr (es ! (B - 1))"
    unfolding Bm using len_oe nth_oe by (simp del: length_append)
  have s5: "wr ?oe (int B - 1) None = Inr (take (B - 1) es @ replicate (Suc (N - B)) None @ drop N es)"
    unfolding Bm using len_oe c2 by (simp del: length_append)
  have nn: "nat (int N - 1) = N - 1" by simp
  show ?thesis
    unfolding bt_split_child_def node B_def[symmetric] ceil_fn_nat bt_create_node_def Let_def
       cbt_node.sel nn nat_int
    by (simp only: s0 s1 s2 s3 loop'[unfolded of_nat_0] s4 s5 not_True_eq_False if_False sum.case prod.case cbt_node.sel)
qed

lemma rd_err: "rd a i = Inl err \<Longrightarrow> err = OutOfBounds"
  by (auto simp: rd_def split: if_splits)
lemma wr_err: "wr a i v = Inl err \<Longrightarrow> err = OutOfBounds"
  by (auto simp: wr_def split: if_splits)
lemma rd_Inr: "rd a i = Inr x \<Longrightarrow> 0 \<le> i \<and> i < int (length a) \<and> x = a ! nat i"
  by (auto simp: rd_def split: if_splits)
lemma wr_Inr: "wr a i v = Inr b \<Longrightarrow> 0 \<le> i \<and> i < int (length a) \<and> b = a[nat i := v]"
  by (auto simp: wr_def split: if_splits)

lemma split_loop_err: "split_loop n i k node nn = Inl err \<Longrightarrow> err = OutOfBounds"
proof (induction n i k node nn rule: split_loop.induct)
  case (1 n i k node nn)
  show ?case
    using "1.prems" "1.IH"
    by (subst (asm) split_loop.simps) (auto split: if_splits sum.splits dest: rd_err wr_err)
qed

lemma split_loop_caps:
  "split_loop n i k node nn = Inr res \<Longrightarrow> 0 \<le> i \<Longrightarrow> i < n \<Longrightarrow>
     n \<le> int (length (entry node)) \<and> n + 1 \<le> int (length (children node))"
proof (induction n i k node nn rule: split_loop.induct)
  case (1 n i k node nn)
  from "1.prems"(1) obtain x ne c nc oe oc where
    a: "rd (entry node) i = Inr x" "wr (entry nn) k x = Inr ne" "rd (children node) (i + 1) = Inr c"
       "wr (children nn) (k + 1) c = Inr nc" "wr (entry node) i None = Inr oe"
       "wr (children node) (i + 1) None = Inr oc"
    and r: "split_loop n (i + 1) (k + 1) (Node oe oc (len node)) (Node ne nc (len nn)) = Inr res"
    using "1.prems"(3)
    by (subst (asm) split_loop.simps) (auto split: sum.splits)
  have b: "i < int (length (entry node))" "i + 1 < int (length (children node))"
    using a(1,3) by (auto dest: rd_Inr)
  have l: "length oe = length (entry node)" "length oc = length (children node)"
    using a(5,6) by (auto dest!: wr_Inr)
  show ?case
  proof (cases "i + 1 < n")
    case True
    have "n \<le> int (length (entry (Node oe oc (len node)))) \<and> n + 1 \<le> int (length (children (Node oe oc (len node))))"
      using "1.prems"(2,3) True a r
      by (intro "1.IH"[OF "1.prems"(3) a(1) a(2) a(3) a(4) a(5) a(6)]) auto
    then show ?thesis using l by simp
  next
    case False
    then show ?thesis using b "1.prems" by auto
  qed
qed

lemma bt_split_child_err: "bt_split_child node n = Inl err \<Longrightarrow> err = OutOfBounds"
  unfolding bt_split_child_def
  by (auto simp: Let_def split: if_splits sum.splits prod.splits
      dest: rd_err wr_err split_loop_err)

lemma bt_split_child_order:
  assumes "bt_split_child node n = Inr (pe, l, Some r)"
  shows "0 < n"
proof (rule ccontr)
  assume "\<not> 0 < n"
  then have "children (bt_create_node n) = []" by (simp add: bt_create_node_def)
  then have "wr (children (bt_create_node n)) 0 c = Inl OutOfBounds" for c
    by (simp add: wr_def)
  then show False using assms unfolding bt_split_child_def
    by (auto simp: Let_def split: if_splits sum.splits)
qed

lemma ceil_fn_bounds: "2 \<le> n \<Longrightarrow> 1 \<le> ceil_fn n \<and> ceil_fn n < n"
  unfolding ceil_fn_def by linarith

lemma bt_split_child_caps:
  assumes "bt_split_child node n = Inr res" "is_full_node node n" "2 \<le> n"
  shows "n \<le> int (length (entry node)) \<and> n + 1 \<le> int (length (children node))"
proof -
  from assms(1,2) obtain oc nc r where
    w: "wr (children node) (ceil_fn n) None = Inr oc"
    and l: "split_loop n (ceil_fn n) 0 (Node (entry node) oc (len node))
              (Node (entry (bt_create_node n)) nc (len (bt_create_node n))) = Inr r"
    unfolding bt_split_child_def
    by (auto simp: Let_def split: if_splits sum.splits prod.splits)
  have "length oc = length (children node)" using w by (auto dest!: wr_Inr)
  then show ?thesis
    using split_loop_caps[OF l] ceil_fn_bounds[OF assms(3)] by simp
qed

text \<open>The result of the split of a full node whose arrays are large enough.\<close>

lemma bt_split_child_result:
  assumes full: "is_full_node node n" and n: "1 \<le> n"
    and ce: "n \<le> int (length (entry node))" and cc: "n + 1 \<le> int (length (children node))"
  shows "bt_split_child node n =
     Inr (entry node ! (nat (ceil_fn n) - 1),
          Node (clear_slots (nat (ceil_fn n) - 1) (nat n) (entry node))
               (clear_slots (nat (ceil_fn n)) (Suc (nat n)) (children node))
               (n div 2),
          Some (Node (slots (nat (ceil_fn n)) (nat n) (entry node)
                        @ replicate (nat (ceil_fn n) - 1) None)
                     (slots (nat (ceil_fn n)) (Suc (nat n)) (children node)
                        @ replicate (nat (ceil_fn n) - 1) None)
                     (n div 2)))"
proof -
  define N where "N = nat n"
  have n_eq: "n = int N" using n by (simp add: N_def)
  have B: "nat (ceil_fn (int N)) = Suc N div 2" "Suc N div 2 \<le> N" "1 \<le> Suc N div 2"
    using n unfolding n_eq ceil_fn_nat by auto
  have d: "Suc (N - Suc N div 2) = N - (Suc N div 2 - 1)" "Suc (N - Suc N div 2) = Suc N - Suc N div 2"
    using B by auto
  show ?thesis
    using bt_split_child_full[of node N] full n ce cc B(2,3)
    unfolding n_eq B clear_slots_def slots_def nat_int d by (simp add: Suc_diff_le)
qed

lemma populated_append [simp]: "populated (xs @ ys) = populated xs @ populated ys"
  by (induction xs rule: populated.induct) auto

lemma populated_replicate_None [simp]: "populated (replicate k None) = []"
  by (induction k) auto

section \<open>Claims about the split\<close>

text \<open>
  C10 (as amended). The split of a full node of a tree of order \<open>n \<ge> 3\<close> reads and
  clears the entry slots up to index \<open>n - 1\<close> and the child slots up to index \<open>n\<close>:
  it returns the promoted entry and the new node exactly when the node has at least \<open>n\<close>
  entry slots and \<open>n + 1\<close> child slots, and it leaves an array (the out-of-range branch
  of the array accesses) exactly when the node has fewer.
\<close>
theorem split_accesses_in_bounds:
  assumes "is_full_node node n" and "3 \<le> n"
  shows "(\<exists>pe l r. bt_split_child node n = Inr (pe, l, Some r))
           = (n \<le> int (length (entry node)) \<and> n + 1 \<le> int (length (children node)))
       \<and> (bt_split_child node n = Inl OutOfBounds)
           = (\<not> (n \<le> int (length (entry node)) \<and> n + 1 \<le> int (length (children node))))"
proof (cases "n \<le> int (length (entry node)) \<and> n + 1 \<le> int (length (children node))")
  case True
  then show ?thesis
    using bt_split_child_result[of node n] assms by simp
next
  case False
  have "\<And>res. bt_split_child node n \<noteq> Inr res"
    using bt_split_child_caps[of node n] assms False by auto
  then have "bt_split_child node n = Inl OutOfBounds"
    using bt_split_child_err[of node n] by (cases "bt_split_child node n") auto
  then show ?thesis using False by simp
qed

theorem split_accesses_in_bounds_witness:
  "is_full_node (Node [Some (Entry 1 0), Some (Entry 2 0), None] [None, None, None, None] 2) 3
   \<and> (\<exists>pe l r. bt_split_child
         (Node [Some (Entry 1 0), Some (Entry 2 0), None] [None, None, None, None] 2) 3
       = Inr (pe, l, Some r))"
  using split_accesses_in_bounds
    [of "Node [Some (Entry 1 0), Some (Entry 2 0), None] [None, None, None, None] 2" 3]
  by (simp add: is_full_node_def)

text \<open>
  C10 as stated fails: a full node of order 3 with the documented capacities, two entry
  slots and three child slots, as \<open>bt_create_node\<close> makes them. The last round of the
  copy loop, \<open>i = 2\<close>, reads \<open>entry[2]\<close> and \<open>children[3]\<close>.
\<close>

theorem split_documented_capacity_counterexample:
  "is_full_node (Node [Some (Entry 1 0), Some (Entry 2 0)] [None, None, None] 2) 3
   \<and> length (entry (Node [Some (Entry 1 0), Some (Entry 2 0)] [None, None, None] 2))
       = length (entry (bt_create_node 3))
   \<and> length (children (Node [Some (Entry 1 0), Some (Entry 2 0)] [None, None, None] 2))
       = length (children (bt_create_node 3))
   \<and> bt_split_child (Node [Some (Entry 1 0), Some (Entry 2 0)] [None, None, None] 2) 3
       = Inl OutOfBounds"
  by (simp add: is_full_node_def bt_create_node_def bt_split_child_def ceil_fn_def Let_def
      split_loop.simps rd_def wr_def)

text \<open>
  C3 (as amended). The split of a full node (count \<open>n - 1\<close>) of a tree of order
  \<open>n \<ge> 3\<close>, with \<open>borrow = ceil (n / 2)\<close>: when the node has at least \<open>n\<close> entry slots
  and \<open>n + 1\<close> child slots, the split returns the content of the entry slot \<open>borrow - 1\<close>
  as the promoted entry and empties that slot, so the entry is in neither half; the new
  node takes the contents of the entry slots \<open>borrow, ..., n - 1\<close> and of the child slots
  \<open>borrow, ..., n\<close>, in order and from its slot 0 on (the child slot \<open>borrow\<close> becomes its
  child slot 0), and these slots are emptied in the old node; both counts become
  \<open>n div 2\<close>. The ranges end one slot after the ranges \<open>[borrow, n - 2]\<close> and
  \<open>[borrow, n - 1]\<close>. When the node has fewer slots, the split leaves an array and builds
  no half.
\<close>
theorem split_moves_slots:
  assumes "is_full_node node n" and "3 \<le> n"
  shows "bt_split_child node n =
     (if n \<le> int (length (entry node)) \<and> n + 1 \<le> int (length (children node))
      then Inr (entry node ! (nat (ceil_fn n) - 1),
                Node (clear_slots (nat (ceil_fn n) - 1) (nat n) (entry node))
                     (clear_slots (nat (ceil_fn n)) (Suc (nat n)) (children node))
                     (n div 2),
                Some (Node (slots (nat (ceil_fn n)) (nat n) (entry node)
                              @ replicate (nat (ceil_fn n) - 1) None)
                           (slots (nat (ceil_fn n)) (Suc (nat n)) (children node)
                              @ replicate (nat (ceil_fn n) - 1) None)
                           (n div 2)))
      else Inl OutOfBounds)"
proof (cases "n \<le> int (length (entry node)) \<and> n + 1 \<le> int (length (children node))")
  case True
  then show ?thesis using bt_split_child_result[of node n] assms by simp
next
  case False
  have "\<And>res. bt_split_child node n \<noteq> Inr res"
    using bt_split_child_caps[of node n] assms False by auto
  then have "bt_split_child node n = Inl OutOfBounds"
    using bt_split_child_err[of node n] by (cases "bt_split_child node n") auto
  then show ?thesis using False by simp
qed

theorem split_moves_slots_witness:
  "bt_split_child (leaf_of 3 4 [10, 20, 30]) 4 = Inl OutOfBounds
   \<and> bt_split_child
        (Node [Some (Entry 10 0), Some (Entry 20 0), Some (Entry 30 0), None]
           [Some (leaf_of 3 4 [5]), Some (leaf_of 3 4 [15]), Some (leaf_of 3 4 [25]),
            Some (leaf_of 3 4 [35]), None] 3) 4
     = Inr (Some (Entry 20 0),
            Node [Some (Entry 10 0), None, None, None]
                 [Some (leaf_of 3 4 [5]), Some (leaf_of 3 4 [15]), None, None, None] 2,
            Some (Node [Some (Entry 30 0), None, None]
                 [Some (leaf_of 3 4 [25]), Some (leaf_of 3 4 [35]), None, None] 2))"
proof -
  let ?x = "Node [Some (Entry 10 0), Some (Entry 20 0), Some (Entry 30 0), None]
         [Some (leaf_of 3 4 [5]), Some (leaf_of 3 4 [15]), Some (leaf_of 3 4 [25]),
          Some (leaf_of 3 4 [35]), None] 3"
  have a: "is_full_node (leaf_of 3 4 [10, 20, 30]) 4" "is_full_node ?x 4"
    by (simp_all add: is_full_node_def leaf_of_def)
  have c: "nat (ceil_fn 4) = 2" by (simp add: ceil_fn_def)
  have "bt_split_child (leaf_of 3 4 [10, 20, 30]) 4 = Inl OutOfBounds"
    using split_moves_slots[OF a(1)] by (simp add: leaf_of_def)
  moreover have "bt_split_child ?x 4
     = Inr (Some (Entry 20 0),
            Node [Some (Entry 10 0), None, None, None]
                 [Some (leaf_of 3 4 [5]), Some (leaf_of 3 4 [15]), None, None, None] 2,
            Some (Node [Some (Entry 30 0), None, None]
                 [Some (leaf_of 3 4 [25]), Some (leaf_of 3 4 [35]), None, None] 2))"
    using split_moves_slots[OF a(2)]
    by (simp add: c clear_slots_def slots_def numeral_eq_Suc)
  ultimately show ?thesis by simp
qed

text \<open>
  C3 as stated fails. Five insertions into the empty tree of order 6 fill the root, a node
  with the five entry slots and six child slots \<open>bt_create_node 6\<close> allocated. Its split
  is not the split into the entry at index \<open>borrow - 1\<close>, the entries \<open>[borrow, n - 2]\<close>
  and the children \<open>[borrow, n - 1]\<close> (\<open>spec_split\<close>): the copy loop goes on to
  \<open>entry[5]\<close> and \<open>children[6]\<close>, which the node does not have.
\<close>

theorem split_spec_ranges_counterexample:
  "insert_all 1 (empty_tree 6 0 0) [Entry 3 0, Entry 1 0, Entry 5 0, Entry 2 0, Entry 4 0]
     = Some (Inr \<lparr>bt_root = Some (leaf_of 5 6 [1, 2, 3, 4, 5]), bt_n = 6,
                   bt_max_key = 3, bt_min_key = 3\<rparr>)
   \<and> is_full_node (leaf_of 5 6 [1, 2, 3, 4, 5]) 6
   \<and> bt_split_child (leaf_of 5 6 [1, 2, 3, 4, 5]) 6 = Inl OutOfBounds
   \<and> bt_split_child (leaf_of 5 6 [1, 2, 3, 4, 5]) 6
       \<noteq> Inr (fst (spec_split (leaf_of 5 6 [1, 2, 3, 4, 5]) 6),
                fst (snd (spec_split (leaf_of 5 6 [1, 2, 3, 4, 5]) 6)),
                Some (snd (snd (spec_split (leaf_of 5 6 [1, 2, 3, 4, 5]) 6))))"
  by code_simp

section \<open>The split of the nodes the program allocates\<close>






section \<open>The split with one more slot in each array\<close>

text \<open>
  What the split does to a full node that has the \<open>n\<close> entry slots and \<open>n + 1\<close> child
  slots its loop is written for, a node that \<open>bt_create_node\<close> does not allocate. The
  loop copies the empty entry slot \<open>n - 1\<close> into the new node, and both halves get the
  count \<open>n div 2\<close>: at the order 5 the new node has count 2 and holds one entry; at the
  order 3 it has count 1 and holds none. Such a half does not satisfy the invariant of a
  node.
\<close>

lemma split_larger_arrays_counted:
  "bt_split_child (leaf_of 5 6 [10, 20, 30, 40]) 5
     = Inr (Some (Entry 30 0),
            Node [Some (Entry 10 0), Some (Entry 20 0), None, None, None]
                 [None, None, None, None, None, None] 2,
            Some (Node [Some (Entry 40 0), None, None, None] [None, None, None, None, None] 2))
   \<and> counted (leaf_of 5 6 [10, 20, 30, 40])
       = Inr [Some (Entry 10 0), Some (Entry 20 0), Some (Entry 30 0), Some (Entry 40 0)]
   \<and> counted (Node [Some (Entry 10 0), Some (Entry 20 0), None, None, None]
                 [None, None, None, None, None, None] 2)
       = Inr [Some (Entry 10 0), Some (Entry 20 0)]
   \<and> counted (Node [Some (Entry 40 0), None, None, None] [None, None, None, None, None] 2)
       = Inr [Some (Entry 40 0), None]
   \<and> \<not> node_ok 5 (Node [Some (Entry 40 0), None, None, None] [None, None, None, None, None] 2)"
  by code_simp

lemma split_larger_arrays_three:
  "bt_split_child (leaf_of 3 4 [10, 20]) 3
     = Inr (Some (Entry 20 0), Node [Some (Entry 10 0), None, None] [None, None, None, None] 1,
            Some (Node [None, None] [None, None, None] 1))
   \<and> node_entries (Node [None, None] [None, None, None] 1) = []
   \<and> \<not> node_ok 3 (Node [None, None] [None, None, None] 1)"
  by code_simp

text \<open>
  With such arrays the split of a full child returns, and the new node is stored in the
  child slot whose index \<open>node_insert_entry\<close> returned, which is the landing index by
  the contract of the specification: here the promoted entry 2 lands at index 0 of the
  parent, the new node is stored in the child slot 0, over the old node, and the child
  slot 1 stays empty.
\<close>

lemma split_step_larger_arrays:
  "split_step
      (Node [Some (Entry 5 0), None, None]
          [Some (leaf_of 3 4 [1, 2]), Some (leaf_of 3 4 [7]), None, None] 1)
      0 (leaf_of 3 4 [1, 2]) (Entry 3 0) 3
    = Inr (Node [Some (Entry 2 0), Some (Entry 5 0), None]
             [Some (Node [None, None] [None, None, None] 1), None,
              Some (leaf_of 3 4 [7]), None] 2,
           1)"
  by code_simp

section \<open>Heights\<close>

lemma fold_max_ge: "a \<le> fold max xs (a::nat)"
  by (induction xs arbitrary: a) (auto intro: order_trans[OF max.cobounded2])

lemma fold_max_mem: "x \<in> set xs \<Longrightarrow> x \<le> fold max xs (a::nat)"
proof (induction xs arbitrary: a)
  case Nil then show ?case by simp
next
  case (Cons y ys)
  show ?case
  proof (cases "x = y")
    case True
    have "max y a \<le> fold max ys (max y a)" by (rule fold_max_ge)
    then show ?thesis using True by simp
  next
    case False then show ?thesis using Cons by simp
  qed
qed

lemma fold_max_le: "(\<And>x. x \<in> set xs \<Longrightarrow> x \<le> m) \<Longrightarrow> a \<le> m \<Longrightarrow> fold max xs (a::nat) \<le> m"
  by (induction xs arbitrary: a) auto

lemma height_eq: "height nd = Suc (fold max (map tree_height (children nd)) 0)"
proof -
  have "tree_height = (\<lambda>c. case c of None \<Rightarrow> 0 | Some nd \<Rightarrow> height nd)"
    by (rule ext) (simp add: tree_height_def)
  then show ?thesis by (cases nd) simp
qed

lemma tree_height_simps [simp]: "tree_height None = 0" "tree_height (Some nd) = height nd"
  by (simp_all add: tree_height_def)

lemma height_pos: "0 < height nd"
  by (simp add: height_eq)

lemma child_height: "c \<in> set (children nd) \<Longrightarrow> tree_height c < height nd"
  unfolding height_eq using fold_max_mem[of "tree_height c" "map tree_height (children nd)" 0]
  by auto

lemma height_le:
  assumes "\<And>c. c \<in> set (children nd) \<Longrightarrow> tree_height c < h" and "0 < h"
  shows "height nd \<le> h"
proof -
  have "fold max (map tree_height (children nd)) 0 \<le> h - 1"
  proof (rule fold_max_le)
    fix x assume "x \<in> set (map tree_height (children nd))"
    then obtain c where "c \<in> set (children nd)" "x = tree_height c" by auto
    then show "x \<le> h - 1" using assms(1)[of c] by simp
  qed simp
  then show ?thesis using assms(2) unfolding height_eq by simp
qed

lemma height_mono:
  assumes "\<And>c. c \<in> set (children nd') \<Longrightarrow> c = None \<or> (\<exists>d \<in> set (children nd). tree_height c \<le> tree_height d)"
  shows "height nd' \<le> height nd"
proof (rule height_le)
  fix c assume "c \<in> set (children nd')"
  with assms consider "c = None" | d where "d \<in> set (children nd)" "tree_height c \<le> tree_height d"
    by blast
  then show "tree_height c < height nd"
    using height_pos[of nd] child_height[of _ nd] by cases (auto intro: le_less_trans)
qed (rule height_pos)

section \<open>Pointers\<close>

lemma deref_None [simp]: "deref None p = None"
  by (cases p) auto

lemma deref_append:
  "deref t (p @ q) = deref (deref t p) q"
  by (induction t p rule: deref.induct) auto

lemma deref_store:
  "deref t p = Some x \<Longrightarrow> deref (store t p y) p = y"
  by (induction t p y rule: store.induct) (auto split: if_splits)

lemma deref_store_append:
  "deref t p = Some x \<Longrightarrow> deref (store t p y) (p @ q) = deref y q"
  by (simp add: deref_append deref_store)


lemma store_height:
  "deref t p = Some x \<Longrightarrow> height y \<le> height x \<Longrightarrow>
     tree_height (store t p (Some y)) \<le> tree_height t"
proof (induction t p "Some y" arbitrary: rule: store.induct)
  case (1 t)
  then show ?case by simp
next
  case (2 i p)
  then show ?case by simp
next
  case (3 nd i p)
  from "3.prems" have i: "i < length (children nd)" and d: "deref (children nd ! i) p = Some x"
    by (auto split: if_splits)
  have IH: "tree_height (store (children nd ! i) p (Some y)) \<le> tree_height (children nd ! i)"
    using "3.hyps" d "3.prems"(2) by simp
  have "height (Node (entry nd) ((children nd)[i := store (children nd ! i) p (Some y)]) (len nd))
      \<le> height nd"
  proof (rule height_mono)
    fix c assume "c \<in> set (children (Node (entry nd) ((children nd)[i := store (children nd ! i) p (Some y)]) (len nd)))"
    then have "c = store (children nd ! i) p (Some y) \<or> c \<in> set (children nd)"
      using set_update_subset_insert[of "children nd" i] by auto
    then show "c = None \<or> (\<exists>d\<in>set (children nd). tree_height c \<le> tree_height d)"
      using IH i nth_mem[OF i] by auto
  qed
  then show ?case by simp
qed

section \<open>Children of the nodes an insertion makes\<close>

lemma set_clear_slots: "set (clear_slots i j xs) \<subseteq> insert None (set xs)"
  unfolding clear_slots_def by (auto dest: in_set_takeD in_set_dropD)

lemma set_slots: "set (slots i j xs) \<subseteq> set xs"
  unfolding slots_def by (auto dest: in_set_takeD in_set_dropD)

lemma bt_split_child_not_full:
  "\<not> is_full_node node n \<Longrightarrow> bt_split_child node n = Inr (None, node, None)"
  by (simp add: bt_split_child_def)

lemma bt_split_child_children:
  assumes "bt_split_child node n = Inr (m, l, sr)" and "2 \<le> n"
  shows "set (children l) \<subseteq> insert None (set (children node))"
    and "sr = Some r \<Longrightarrow> set (children r) \<subseteq> insert None (set (children node))"
proof -
  have "set (children l) \<subseteq> insert None (set (children node))
       \<and> (sr = Some r \<longrightarrow> set (children r) \<subseteq> insert None (set (children node)))"
  proof (cases "is_full_node node n")
    case False
    then show ?thesis using assms(1) by (auto simp: bt_split_child_not_full)
  next
    case True
    have caps: "n \<le> int (length (entry node))" "n + 1 \<le> int (length (children node))"
      using bt_split_child_caps[OF assms(1) True assms(2)] by simp_all
    show ?thesis
      using bt_split_child_result[OF True _ caps] assms
        set_clear_slots[of "nat (ceil_fn n)" "Suc (nat n)" "children node"]
        set_slots[of "nat (ceil_fn n)" "Suc (nat n)" "children node"]
      by auto
  qed
  then show "set (children l) \<subseteq> insert None (set (children node))"
    and "sr = Some r \<Longrightarrow> set (children r) \<subseteq> insert None (set (children node))"
    by auto
qed

lemma bt_split_child_height:
  assumes "bt_split_child node n = Inr (m, l, sr)" and "2 \<le> n"
  shows "height l \<le> height node" and "tree_height sr \<le> height node"
proof -
  show "height l \<le> height node"
    using bt_split_child_children(1)[OF assms] by (intro height_mono) auto
  show "tree_height sr \<le> height node"
  proof (cases sr)
    case (Some r)
    then show ?thesis
      using bt_split_child_children(2)[OF assms Some] by (auto intro!: height_mono)
  qed simp
qed

lemma set_shifted:
  "set (take a xs @ None # take b (drop c xs) @ drop d xs) \<subseteq> insert None (set xs)"
proof -
  have "set (take b (drop c xs)) \<subseteq> set xs"
    using set_take_subset[of b "drop c xs"] set_drop_subset[of c xs] by blast
  then show ?thesis
    using set_take_subset[of a xs] set_drop_subset[of d xs] by auto
qed

lemma node_insert_entry_Inr:
  assumes "node_insert_entry nd e sh n = Inr (nd', i)"
  obtains es j where "counted nd = Inr es" "key_pos es (key e) = Inr j" "i = int j"
    "nat (len nd) < length (entry nd)" "sh \<Longrightarrow> Suc (nat (len nd)) < length (children nd)"
    "entry nd' = take j (entry nd) @ Some e # take (nat (len nd) - j) (drop j (entry nd))
                   @ drop (Suc (nat (len nd))) (entry nd)"
    "children nd' = (if sh then take (Suc j) (children nd) @ None
                               # take (nat (len nd) - j) (drop (Suc j) (children nd))
                               @ drop (Suc (Suc (nat (len nd)))) (children nd)
                     else children nd)"
    "len nd' = len nd + 1"
  using assms unfolding node_insert_entry_def
  by (auto simp: Let_def split: sum.splits if_splits)

lemma node_insert_entry_children:
  assumes "node_insert_entry nd e sh n = Inr (nd', i)"
  shows "set (children nd') \<subseteq> insert None (set (children nd))"
proof -
  from assms obtain j where "children nd' = (if sh then take (Suc j) (children nd) @ None
                               # take (nat (len nd) - j) (drop (Suc j) (children nd))
                               @ drop (Suc (Suc (nat (len nd)))) (children nd)
                     else children nd)"
    by (rule node_insert_entry_Inr)
  then show ?thesis
    using set_shifted[of "Suc j" "children nd" "nat (len nd) - j" "Suc j" "Suc (Suc (nat (len nd)))"]
    by (cases sh) auto
qed

lemma wr_set: "wr a i v = Inr b \<Longrightarrow> set b \<subseteq> insert v (set a)"
  using set_update_subset_insert[of a "nat i" v] by (auto dest!: wr_Inr)

lemma split_step_height:
  assumes st: "split_step root ci child e n = Inr (root3, ci')"
    and ch: "rd (children root) ci = Inr (Some child)" and n: "2 \<le> n"
  shows "height root3 \<le> height root"
proof -
  obtain m child1 sr cs1 where
    sp: "bt_split_child child n = Inr (m, child1, sr)"
    and w1: "wr (children root) ci (Some child1) = Inr cs1"
    using st unfolding split_step_def by (auto split: sum.splits prod.splits)
  have mem: "Some child \<in> set (children root)"
    using ch by (auto dest!: rd_Inr)
  have h: "height child1 \<le> height child" "tree_height sr \<le> height child"
    using bt_split_child_height[OF sp n] by auto
  have c1: "set cs1 \<subseteq> insert (Some child1) (set (children root))"
    using wr_set[OF w1] .
  have c3: "set (children root3) \<subseteq> {None, Some child1, sr} \<union> set (children root)"
  proof (cases m)
    case None
    then show ?thesis using st sp w1 c1 unfolding split_step_def by (auto simp: Let_def)
  next
    case (Some me)
    then obtain root2 idx cs3 where
      ni: "node_insert_entry (Node (entry root) cs1 (len root)) me True n = Inr (root2, idx)"
      and w3: "wr (children root2) idx sr = Inr cs3"
      and r3: "children root3 = cs3"
      using st sp w1 unfolding split_step_def
      by (auto simp: Let_def split: sum.splits prod.splits)
    show ?thesis
      using node_insert_entry_children[OF ni] wr_set[OF w3] c1 r3 by auto
  qed
  show ?thesis
  proof (rule height_mono)
    fix c assume "c \<in> set (children root3)"
    then have "c = None \<or> c = Some child1 \<or> c = sr \<or> c \<in> set (children root)"
      using c3 by auto
    then show "c = None \<or> (\<exists>d\<in>set (children root). tree_height c \<le> tree_height d)"
      using mem h by (elim disjE) (auto intro: bexI[of _ "Some child"])
  qed
qed

section \<open>The insertion\<close>

lemma split_full_root_not_full:
  "\<not> is_full_node r0 n \<Longrightarrow> split_full_root r0 n = Inr (r0, False)"
  by (simp add: split_full_root_def bt_split_child_not_full)

lemma split_full_root_False_height:
  assumes "split_full_root r0 n = Inr (r, False)" and "2 \<le> n"
  shows "height r \<le> height r0"
proof -
  obtain m l sr where sp: "bt_split_child r0 n = Inr (m, l, sr)" and "r = l"
    using assms(1) unfolding split_full_root_def
    by (auto simp: Let_def split: sum.splits prod.splits option.splits)
  then show ?thesis using bt_split_child_height(1)[OF sp assms(2)] by simp
qed

text \<open>
  The calls that do not restart: enough fuel for the height of the subtree the pointer
  refers to.
\<close>

lemma bt_insert_helper_descent:
  assumes "tree_height (deref (bt_root bt) p) < fuel" and "2 \<le> bt_n bt"
    and "\<And>r0 r. p = [] \<Longrightarrow> bt_root bt = Some r0 \<Longrightarrow> split_full_root r0 (bt_n bt) \<noteq> Inr (r, True)"
  shows "bt_insert_helper fuel bt p e \<noteq> None"
  using assms
proof (induction fuel arbitrary: bt p)
  case 0
  then show ?case by simp
next
  case (Suc fuel)
  show ?case
  proof (cases "deref (bt_root bt) p")
    case None
    then show ?thesis by (auto split: sum.splits prod.splits)
  next
    case (Some root0)
    show ?thesis
    proof (cases "if is_root p then split_full_root root0 (bt_n bt) else Inr (root0, False)")
      case (Inl err)
      then show ?thesis using Some by simp
    next
      case (Inr rc)
      obtain root changed where rc: "rc = (root, changed)" by (cases rc)
      have nch: "\<not> changed"
        using Inr rc Suc.prems(3)[of root0 root] Some
        by (auto simp: is_root_def split: if_splits)
      have hr: "height root \<le> height root0"
        using Inr rc nch split_full_root_False_height[of root0 "bt_n bt" root] Suc.prems(2)
        by (auto split: if_splits)
      have hf: "height root0 < Suc fuel" using Suc.prems(1) Some by simp
      show ?thesis
      proof (cases "get_next_node_index root (key e) (bt_n bt)")
        case (Inl err)
        then show ?thesis using Some Inr rc nch by simp
      next
        case ci: (Inr child_index)
        show ?thesis
        proof (cases "rd (children root) child_index")
          case (Inl err)
          then show ?thesis using Some Inr rc nch ci by simp
        next
          case c: (Inr c)
          show ?thesis
          proof (cases c)
            case None
            then show ?thesis using Some Inr rc nch ci c by (simp split: sum.splits prod.splits)
          next
            case child: (Some child)
            show ?thesis
            proof (cases "split_step root child_index child e (bt_n bt)")
              case (Inl err)
              then show ?thesis using Some Inr rc nch ci c child by simp
            next
              case st: (Inr r3)
              obtain root3 ci' where r3: "r3 = (root3, ci')" by (cases r3)
              show ?thesis
              proof (cases "rd (children root3) ci'")
                case (Inl err)
                then show ?thesis using Some Inr rc nch ci c child st r3 by simp
              next
                case rd3: (Inr c')
                let ?bt = "bt\<lparr>bt_root := store (bt_root bt) p (Some root3)\<rparr>"
                have h3: "height root3 \<le> height root"
                  using split_step_height[of root child_index child e "bt_n bt" root3 ci']
                    st r3 c child Suc.prems(2) by simp
                have c': "c' = children root3 ! nat ci'" "nat ci' < length (children root3)"
                  using rd3 by (auto dest!: rd_Inr)
                have d: "deref (bt_root ?bt) (p @ [nat ci']) = c'"
                  using deref_store_append[OF Some, of "Some root3" "[nat ci']"] c' by simp
                have "tree_height c' < height root3"
                  using child_height[of c' root3] c' by simp
                then have "tree_height (deref (bt_root ?bt) (p @ [nat ci'])) < fuel"
                  using d h3 hr hf by simp
                then have "bt_insert_helper fuel ?bt (p @ [nat ci']) e \<noteq> None"
                  using Suc.prems(2) by (intro Suc.IH) auto
                then show ?thesis using Some Inr rc nch ci c child st r3 rd3 by simp
              qed
            qed
          qed
        qed
      qed
    qed
  qed
qed

lemma bt_create_node_simps [simp]:
  "entry (bt_create_node n) = replicate (nat (n - 1)) None"
  "children (bt_create_node n) = replicate (nat n) None"
  "len (bt_create_node n) = 0"
  by (simp_all add: bt_create_node_def)

lemma split_full_root_True:
  assumes "split_full_root r0 n = Inr (nr, True)"
  obtains re l sr nr1 i where "bt_split_child r0 n = Inr (Some re, l, sr)"
    "node_insert_entry (bt_create_node n) re True n = Inr (nr1, i)"
    "entry nr = entry nr1" "len nr = len nr1"
    "children nr = (children nr1)[0 := Some l, 1 := sr]"
    "1 < length (children nr1)"
  using assms unfolding split_full_root_def
  by (auto simp: Let_def wr_def split: sum.splits prod.splits option.splits if_splits)

lemma new_root_not_full:
  assumes "split_full_root r0 n = Inr (nr, True)" and "3 \<le> n"
  shows "len nr = 1" and "\<not> is_full_node nr n" and "height nr \<le> Suc (height r0)"
proof -
  from assms(1) obtain re l sr nr1 i where
    sp: "bt_split_child r0 n = Inr (Some re, l, sr)"
    and ni: "node_insert_entry (bt_create_node n) re True n = Inr (nr1, i)"
    and nr: "entry nr = entry nr1" "len nr = len nr1"
      "children nr = (children nr1)[0 := Some l, 1 := sr]"
    by (rule split_full_root_True)
  show l1: "len nr = 1"
    using ni nr(2) by (auto elim!: node_insert_entry_Inr)
  then show "\<not> is_full_node nr n" using assms(2) by (simp add: is_full_node_def)
  have h: "height l \<le> height r0" "tree_height sr \<le> height r0"
    using bt_split_child_height[OF sp] assms(2) by auto
  have "set (children nr1) \<subseteq> {None}"
    using node_insert_entry_children[OF ni] by auto
  then have "set (children nr) \<subseteq> {None, Some l, sr}"
    unfolding nr(3)
    using set_update_subset_insert[of "(children nr1)[0 := Some l]" 1 sr]
      set_update_subset_insert[of "children nr1" 0 "Some l"] by auto
  then show "height nr \<le> Suc (height r0)"
    using h by (intro height_le) auto
qed

text \<open>
  C9. An insertion into any tree of order \<open>n \<ge> 3\<close> terminates: a depth of calls of the
  height of the tree plus three is enough for \<open>bt_insert_helper\<close> to return (one call
  for the restart, one for each level of the tree with its new root, and one for a call
  on a \<open>NULL\<close> child). The restart happens at most once: the root it installs is not
  full, so the restarted call leaves it in place.
\<close>
theorem insert_terminates:
  assumes "3 \<le> bt_n bt" and "tree_height (bt_root bt) + 3 \<le> fuel"
  shows "(\<exists>res. bt_insert_helper fuel bt [] e = Some res)
       \<and> (\<forall>r0 nr. bt_root bt = Some r0 \<longrightarrow> split_full_root r0 (bt_n bt) = Inr (nr, True)
             \<longrightarrow> split_full_root nr (bt_n bt) = Inr (nr, False))"
proof
  show "\<exists>res. bt_insert_helper fuel bt [] e = Some res"
  proof (cases "\<exists>r0 nr. bt_root bt = Some r0 \<and> split_full_root r0 (bt_n bt) = Inr (nr, True)")
    case False
    have "bt_insert_helper fuel bt [] e \<noteq> None"
      using assms False by (intro bt_insert_helper_descent) auto
    then show ?thesis by auto
  next
    case True
    then obtain r0 nr where r0: "bt_root bt = Some r0"
      and sp: "split_full_root r0 (bt_n bt) = Inr (nr, True)" by auto
    obtain f where f: "fuel = Suc f" using assms(2) by (cases fuel) auto
    let ?bt = "bt\<lparr>bt_root := Some nr\<rparr>"
    have "bt_insert_helper f ?bt [] e \<noteq> None"
    proof (rule bt_insert_helper_descent)
      show "tree_height (deref (bt_root ?bt) []) < f"
        using new_root_not_full(3)[OF sp assms(1)] assms(2) r0 f by simp
      show "2 \<le> bt_n ?bt" using assms(1) by simp
      show "split_full_root r0' (bt_n ?bt) \<noteq> Inr (r, True)" if "bt_root ?bt = Some r0'" for r0' r
        using that new_root_not_full(2)[OF sp assms(1)]
        by (simp add: split_full_root_not_full)
    qed
    then show ?thesis using r0 sp f by (auto simp: is_root_def)
  qed
  show "\<forall>r0 nr. bt_root bt = Some r0 \<longrightarrow> split_full_root r0 (bt_n bt) = Inr (nr, True)
             \<longrightarrow> split_full_root nr (bt_n bt) = Inr (nr, False)"
    using new_root_not_full(2)[OF _ assms(1)] by (auto simp: split_full_root_not_full)
qed

theorem insert_terminates_witness:
  "\<exists>res. bt_insert_helper 4
      \<lparr>bt_root = Some (leaf_of 3 4 [1, 2]), bt_n = 3, bt_max_key = 1, bt_min_key = 1\<rparr> []
      (Entry 3 0) = Some res"
proof -
  let ?bt = "\<lparr>bt_root = Some (leaf_of 3 4 [1, 2]), bt_n = 3, bt_max_key = 1, bt_min_key = 1\<rparr>"
  have a: "3 \<le> bt_n ?bt" by simp
  have "tree_height (Some (leaf_of 3 4 [1, 2])) + 3 \<le> 4" by code_simp
  then have b: "tree_height (bt_root ?bt) + 3 \<le> 4" by simp
  show ?thesis using insert_terminates[OF a b, of "Entry 3 0"] by simp
qed

lemma split_full_root_full:
  assumes "bt_split_child r0 n = Inr (Some m, l, sr)" and "3 \<le> n"
  shows "split_full_root r0 n =
     Inr (Node (Some m # replicate (nat n - 2) None) (Some l # sr # replicate (nat n - 2) None) 1,
          True)"
proof -
  obtain k where k: "nat n = Suc (Suc k)" "nat (n - 1) = Suc k"
    using assms(2) by (cases "nat n"; cases "nat n - 1") (auto simp: nat_diff_distrib)
  have "node_insert_entry (bt_create_node n) m True n
      = Inr (Node (Some m # replicate k None) (None # None # replicate k None) 1, 0)"
    unfolding node_insert_entry_def counted_def by (simp add: k)
  then show ?thesis
    using assms(1) unfolding split_full_root_def by (simp add: wr_def k)
qed







section \<open>Insertions into a single node\<close>

lemma key_pos_ins_entry:
  "\<exists>j. key_pos (map Some xs) (key e) = Inr j \<and> j \<le> length xs
       \<and> take j xs @ e # drop j xs = ins_entry e xs"
  by (induction xs) auto

lemma set_ins_entry [simp]: "set (ins_entry e xs) = insert e (set xs)"
  by (induction xs) auto

lemma length_ins_entry [simp]: "length (ins_entry e xs) = Suc (length xs)"
  by (induction xs) auto

lemma sorted_ins_entry:
  "sorted_wrt (<) (map key xs) \<Longrightarrow> key e \<notin> key ` set xs \<Longrightarrow>
     sorted_wrt (<) (map key (ins_entry e xs))"
  by (induction xs) (auto simp: less_le)

lemma populated_map_Some [simp]: "populated (map Some xs) = xs"
  by (induction xs) auto

lemma leaf_shape_first:
  assumes "2 \<le> bt_n bt" and "bt_root bt = None"
  shows "bt_insert_helper (Suc fuel) bt [] e
      = Some (Inr (bt\<lparr>bt_root := Some (Node (Some e # replicate (nat (bt_n bt - 1) - 1) None)
                                         (replicate (nat (bt_n bt)) None) 1),
                      bt_max_key := key e, bt_min_key := key e\<rparr>))"
proof -
  obtain k where k: "nat (bt_n bt) = Suc (Suc k)" "nat (bt_n bt - 1) = Suc k"
    using assms(1) by (cases "nat (bt_n bt)"; cases "nat (bt_n bt) - 1") (auto simp: nat_diff_distrib)
  have "node_insert_entry (bt_create_node (bt_n bt)) e True (bt_n bt)
      = Inr (Node (Some e # replicate k None) (None # None # replicate k None) 1, 0)"
    unfolding node_insert_entry_def counted_def by (simp add: k)
  then show ?thesis using assms(2) by (simp add: k)
qed

lemma leaf_shape_step:
  assumes ls: "leaf_shape n bt xs" and n: "2 \<le> n"
  shows "bt_insert_helper (Suc fuel) bt [] e =
     (if length xs = nat (n - 1) then Some (Inl OutOfBounds)
      else Some (Inr (bt\<lparr>bt_root := Some (Node (map Some (ins_entry e xs)
                                  @ replicate (nat (n - 1) - Suc (length xs)) None)
                               (replicate (nat n) None) (int (Suc (length xs))))\<rparr>)))"
proof -
  define c where "c = nat (n - 1)"
  define root where "root = Node (map Some xs @ replicate (c - length xs) None)
                               (replicate (nat n) None) (int (length xs))"
  have bt: "bt_n bt = n" "length xs \<le> c" "bt_root bt = Some root"
    using ls unfolding leaf_shape_def root_def c_def by auto
  have nn: "nat n = Suc c" using n by (simp add: c_def)
  show ?thesis
  proof (cases "length xs = c")
    case True
    have full: "is_full_node root n"
      using True n by (simp add: is_full_node_def root_def c_def)
    have "\<not> (n \<le> int (length (entry root)) \<and> n + 1 \<le> int (length (children root)))"
      using bt(2) n by (simp add: root_def c_def)
    then have "\<And>res. bt_split_child root n \<noteq> Inr res"
      using bt_split_child_caps[OF _ full n] by blast
    then have "bt_split_child root n = Inl OutOfBounds"
      using bt_split_child_err[of root n] by (cases "bt_split_child root n") auto
    then have "split_full_root root n = Inl OutOfBounds"
      by (simp add: split_full_root_def)
    then show ?thesis using True bt by (simp add: is_root_def c_def)
  next
    case False
    then have lt: "length xs < c" using bt(2) by simp
    have nf: "\<not> is_full_node root n"
      using lt by (simp add: is_full_node_def root_def c_def)
    obtain j where j: "key_pos (map Some xs) (key e) = Inr j" "j \<le> length xs"
      "take j xs @ e # drop j xs = ins_entry e xs"
      using key_pos_ins_entry by blast
    have cnt: "counted root = Inr (map Some xs)"
      using bt(2) by (simp add: counted_def root_def)
    have gi: "get_next_node_index root (key e) n = Inr (int j)"
      by (simp add: get_next_node_index_def cnt j)
    have rdc: "rd (children root) (int j) = Inr None"
      using j(2) lt by (simp add: root_def nn del: replicate_Suc)
    have es: "take j (map Some xs @ replicate (c - length xs) None)
                @ Some e # take (length xs - j) (drop j (map Some xs @ replicate (c - length xs) None))
                @ drop (Suc (length xs)) (map Some xs @ replicate (c - length xs) None)
            = map Some (ins_entry e xs) @ replicate (c - Suc (length xs)) None"
      using j(2) by (simp add: j(3)[symmetric] take_map drop_map)
    have cs: "take (Suc j) (replicate (Suc c) None) @ None
                # take (length xs - j) (drop (Suc j) (replicate (Suc c) None))
                @ drop (Suc (Suc (length xs))) (replicate (Suc c) None)
            = replicate (Suc c) (None :: cbt_node option)"
    proof -
      have "min (Suc c) (Suc j) = Suc j" "min (c - j) (length xs - j) = length xs - j"
        using j(2) lt by auto
      moreover have "Suc j + (Suc (length xs - j) + (c - Suc (length xs))) = Suc c"
        using j(2) lt by simp
      ultimately show ?thesis
        by (simp add: replicate_add[symmetric] del: replicate_Suc)
           (simp add: replicate_add[symmetric] replicate_Suc[symmetric] del: replicate_Suc)
    qed
    have ni: "node_insert_entry root e True n
        = Inr (Node (map Some (ins_entry e xs) @ replicate (c - Suc (length xs)) None)
                    (replicate (Suc c) None) (int (Suc (length xs))), int j)"
      unfolding node_insert_entry_def cnt
      using lt es cs by (simp add: j(1) root_def nn Let_def)
    show ?thesis
      using False bt nf gi rdc ni
      by (simp add: is_root_def split_full_root_not_full c_def[symmetric] nn)
  qed
qed

lemma leaf_shape_ins:
  assumes "leaf_shape n bt xs" and "length xs < nat (n - 1)"
  shows "leaf_shape n
     (bt\<lparr>bt_root := Some (Node (map Some (ins_entry e xs)
                                  @ replicate (nat (n - 1) - Suc (length xs)) None)
                               (replicate (nat n) None) (int (Suc (length xs))))\<rparr>)
     (ins_entry e xs)"
  using assms by (simp add: leaf_shape_def)

lemma insert_all_leaf:
  assumes "leaf_shape n bt xs" and "2 \<le> n"
  shows "insert_all (Suc fuel) bt es =
     (if length xs + length es \<le> nat (n - 1)
      then Some (Inr (bt\<lparr>bt_root := Some (Node (map Some (fold ins_entry es xs)
                                  @ replicate (nat (n - 1) - (length xs + length es)) None)
                               (replicate (nat n) None) (int (length xs + length es)))\<rparr>))
      else Some (Inl OutOfBounds))"
  using assms(1)
proof (induction es arbitrary: bt xs)
  case Nil
  then show ?case by (cases bt) (auto simp: leaf_shape_def)
next
  case (Cons e es)
  show ?case
  proof (cases "length xs = nat (n - 1)")
    case True
    then show ?thesis using leaf_shape_step[OF Cons.prems assms(2)] by simp
  next
    case False
    then have lt: "length xs < nat (n - 1)" using Cons.prems by (simp add: leaf_shape_def)
    show ?thesis
      using leaf_shape_step[OF Cons.prems assms(2), of fuel e] False
        Cons.IH[OF leaf_shape_ins[OF Cons.prems lt, of e]]
      by simp
  qed
qed

lemma length_fold_ins_entry [simp]: "length (fold ins_entry es xs) = length xs + length es"
  by (induction es arbitrary: xs) auto

lemma set_fold_ins_entry [simp]: "set (fold ins_entry es xs) = set xs \<union> set es"
  by (induction es arbitrary: xs) auto

lemma sorted_fold_ins_entry:
  "sorted_wrt (<) (map key xs) \<Longrightarrow> distinct (map key es) \<Longrightarrow> key ` set xs \<inter> key ` set es = {}
     \<Longrightarrow> sorted_wrt (<) (map key (fold ins_entry es xs))"
proof (induction es arbitrary: xs)
  case Nil
  then show ?case by simp
next
  case (Cons e es)
  have "sorted_wrt (<) (map key (ins_entry e xs))"
    using Cons.prems by (intro sorted_ins_entry) auto
  moreover have "key ` set (ins_entry e xs) \<inter> key ` set es = {}"
    using Cons.prems by auto
  ultimately show ?case using Cons.IH[of "ins_entry e xs"] Cons.prems by simp
qed

lemma tree_ok_leaf:
  assumes "length xs \<le> nat (n - 1)" and "sorted_wrt (<) (map key xs)" and "1 \<le> n"
  shows "tree_ok n (Node (map Some xs @ replicate k None) (replicate (nat n) None)
                      (int (length xs)))"
proof -
  have "list_all (\<lambda>c. case c of None \<Rightarrow> True | Some nd \<Rightarrow> tree_ok n nd) (replicate (nat n) None)"
    by (simp add: list_all_iff)
  moreover have "\<not> list_ex (\<lambda>c. c \<noteq> None) (replicate (nat n) (None :: cbt_node option))"
    by (simp add: list_ex_iff)
  moreover have "list_all (\<lambda>x. x \<noteq> None) (map Some xs)"
    by (simp add: list_all_iff)
  ultimately show ?thesis
    using assms
    by (auto simp: node_ok_def node_entries_def list_all_iff subtree_keys_def)
qed

lemma height_leaf: "height (Node es (replicate k None) l) = 1"
proof -
  have "height (Node es (replicate k None) l) \<le> 1" by (intro height_le) auto
  then show ?thesis using height_pos[of "Node es (replicate k None) l"] by simp
qed

lemma leaf_shape_after_first:
  "2 \<le> n \<Longrightarrow> leaf_shape n
     (empty_tree n mx mn\<lparr>bt_root := Some (Node (Some e # replicate (nat (n - 1) - 1) None)
                                         (replicate (nat n) None) 1),
                      bt_max_key := key e, bt_min_key := key e\<rparr>) [e]"
  by (simp add: leaf_shape_def empty_tree_def)

lemma insert_all_empty:
  assumes "2 \<le> n"
  shows "insert_all (Suc fuel) (empty_tree n mx mn) (e # es) =
     (if Suc (length es) \<le> nat (n - 1)
      then Some (Inr \<lparr>bt_root = Some (Node (map Some (fold ins_entry es [e])
                                  @ replicate (nat (n - 1) - Suc (length es)) None)
                               (replicate (nat n) None) (int (Suc (length es)))),
                     bt_n = n, bt_max_key = key e, bt_min_key = key e\<rparr>)
      else Some (Inl OutOfBounds))"
  using leaf_shape_first[where bt = "empty_tree n mx mn" and fuel = fuel and e = e] assms
    insert_all_leaf[OF leaf_shape_after_first[OF assms, where mx = mx and mn = mn and e = e] assms,
      where fuel = fuel and es = es]
  by (simp add: empty_tree_def)

section \<open>Claims about sequences of insertions\<close>

text \<open>
  The insertions into one node that is not full keep the invariants of the
  specification: of \<open>n\<close> entries with distinct keys inserted into the empty tree of order
  \<open>n \<ge> 3\<close>, each of the first \<open>n - 1\<close> gives a single node that satisfies them, and the
  last one finds this root full.
\<close>

lemma single_leaf_insertions:
  assumes n: "3 \<le> n" and d: "distinct (map key es)" and fuel: "0 < fuel"
  shows "(int (length es) \<le> n - 1 \<longrightarrow>
           (\<forall>k. 0 < k \<and> k \<le> length es \<longrightarrow>
              (\<exists>bt root. insert_all fuel (empty_tree n mx mn) (take k es) = Some (Inr bt)
                 \<and> bt_root bt = Some root \<and> tree_ok n root \<and> height root = 1
                 \<and> set (node_entries root) = set (take k es))))
       \<and> (int (length es) = n \<longrightarrow>
            insert_all fuel (empty_tree n mx mn) es = Some (Inl OutOfBounds))"
proof (intro conjI impI allI)
  fix k
  assume le: "int (length es) \<le> n - 1" and k: "0 < k \<and> k \<le> length es"
  obtain f where f: "fuel = Suc f" using fuel by (cases fuel) auto
  obtain x xs where t: "take k es = x # xs" using k by (cases "take k es") auto
  define ys where "ys = fold ins_entry xs [x]"
  have len: "length (x # xs) = k" using k t[symmetric] by simp
  then have lk: "Suc (length xs) \<le> nat (n - 1)" using le k by auto
  have dk: "distinct (map key (x # xs))"
    using d t[symmetric] by (simp add: distinct_take take_map[symmetric])
  have sorted: "sorted_wrt (<) (map key ys)"
    unfolding ys_def using dk by (intro sorted_fold_ins_entry) auto
  have ly: "length ys = Suc (length xs)" by (simp add: ys_def)
  let ?root = "Node (map Some ys @ replicate (nat (n - 1) - Suc (length xs)) None)
                 (replicate (nat n) None) (int (Suc (length xs)))"
  have "insert_all fuel (empty_tree n mx mn) (take k es)
      = Some (Inr \<lparr>bt_root = Some ?root, bt_n = n, bt_max_key = key x, bt_min_key = key x\<rparr>)"
    using insert_all_empty[where n = n and fuel = f and mx = mx and mn = mn and e = x and es = xs]
      n lk unfolding f t ys_def by simp
  moreover have "tree_ok n ?root"
    using tree_ok_leaf[of ys n "nat (n - 1) - Suc (length xs)"] sorted lk ly n by simp
  moreover have "height ?root = 1" by (rule height_leaf)
  moreover have "set (node_entries ?root) = set (take k es)"
    unfolding t using ly by (simp add: node_entries_def ys_def del: length_fold_ins_entry)
  ultimately show "\<exists>bt root. insert_all fuel (empty_tree n mx mn) (take k es) = Some (Inr bt)
                 \<and> bt_root bt = Some root \<and> tree_ok n root \<and> height root = 1
                 \<and> set (node_entries root) = set (take k es)"
    by auto
next
  assume eq: "int (length es) = n"
  obtain f where f: "fuel = Suc f" using fuel by (cases fuel) auto
  obtain x xs where t: "es = x # xs" using eq n by (cases es) auto
  show "insert_all fuel (empty_tree n mx mn) es = Some (Inl OutOfBounds)"
    using insert_all_empty[where n = n and fuel = f and mx = mx and mn = mn and e = x and es = xs]
      n eq unfolding f t by auto
qed


section \<open>Trees of allocated nodes\<close>
















end
